theory Spec2Isabelle
  imports Complex_Main "HOL-Library.Product_Lexorder" "HOL-Library.List_Lexorder"
    "HOL-Library.Char_ord" "HOL-Library.Multiset"
begin

section \<open>The time-allocation engine of wtttoday.py\<close>

text \<open>
  A shallow embedding of the scheduling core of \<^verbatim>\<open>src/wtttoday.py\<close>: the interval
  algebra (\<^verbatim>\<open>merge_intervals\<close>, \<^verbatim>\<open>subtract_intervals\<close>), the break sizer
  (\<^verbatim>\<open>compute_adaptive_break\<close>), the greedy placement of \<^verbatim>\<open>ScheduleEngine.plan\<close>,
  the per-day share of \<^verbatim>\<open>App._get_tasks_for_day\<close> and the validation of
  \<^verbatim>\<open>PlannerPanel.generate\<close>. Minutes and Python \<^verbatim>\<open>int\<close>s are \<^typ>\<open>int\<close>;
  Python strings are \<^typ>\<open>string\<close> (UTF-8 bytes for the three characters outside
  ASCII); a raised exception is the \<open>Inl\<close> of a sum.
\<close>

subsection \<open>Strings and the trace format\<close>

datatype error = ValueError string

definition em_dash :: string where
  "em_dash = [CHR 0xE2, CHR 0x80, CHR 0x94]"

definition warn_sign :: string where
  "warn_sign = [CHR 0xE2, CHR 0x9A, CHR 0xA0]"

definition rsquo :: string where
  "rsquo = [CHR 0xE2, CHR 0x80, CHR 0x99]"

definition ge_sign :: string where
  "ge_sign = [CHR 0xE2, CHR 0x89, CHR 0xA5]"

text \<open>Python's \<^verbatim>\<open>str(n)\<close> of an integer and the format \<^verbatim>\<open>{mm:02d}\<close>.\<close>

fun str_nat :: "nat \<Rightarrow> string" where
  "str_nat n =
     (if n < 10 then [''0123456789'' ! n]
      else str_nat (n div 10) @ [''0123456789'' ! (n mod 10)])"

declare str_nat.simps [simp del]

definition str_int :: "int \<Rightarrow> string" where
  "str_int i = (if i < 0 then ''-'' @ str_nat (nat (- i)) else str_nat (nat i))"

definition fmt_02d :: "int \<Rightarrow> string" where
  "fmt_02d i = (if 0 \<le> i \<and> i < 10 then ''0'' @ str_int i else str_int i)"

definition fmt_min_to_time :: "int \<Rightarrow> string" where
  "fmt_min_to_time mn0 =
     (let mn = mn0 mod (24 * 60);
          hh = mn div 60;
          mm = mn mod 60;
          suf = (if hh < 12 then ''AM'' else ''PM'');
          h12 = (if 1 \<le> hh \<and> hh \<le> 12 then hh
                 else if hh = 0 \<or> hh = 12 then 12 else hh - 12)
      in str_int h12 @ '':'' @ fmt_02d mm @ '' '' @ suf)"

text \<open>\<^verbatim>\<open>label.startswith(p)\<close> and \<^verbatim>\<open>s.replace(old, new, 1)\<close>.\<close>

definition startswith :: "string \<Rightarrow> string \<Rightarrow> bool" where
  "startswith s p = (take (length p) s = p)"

fun replace_first :: "string \<Rightarrow> string \<Rightarrow> string \<Rightarrow> string" where
  "replace_first old new [] = (if old = [] then new else [])"
| "replace_first old new (c # cs) =
     (if startswith (c # cs) old then new @ drop (length old) (c # cs)
      else c # replace_first old new cs)"

definition join_lines :: "string list \<Rightarrow> string" where
  "join_lines ls = (case ls of [] \<Rightarrow> [] | l # rest \<Rightarrow> foldl (\<lambda>acc x. acc @ [CHR 10] @ x) l rest)"

subsection \<open>The data model\<close>

record Lecture =
  l_course :: string
  l_start_min :: int
  l_end_min :: int

record WorkItem =
  course :: string
  title :: string
  date_iso :: string
  due_min :: int
  minutes_needed :: int
  prepared :: bool
  repeat_weekly :: bool

text \<open>\<^verbatim>\<open>kind\<close> is the source's string: "study", "break" or "lecture".\<close>

record PlanBlock =
  start_min :: int
  end_min :: int
  label :: string
  kind :: string
  pb_course :: string
  manual :: bool

record ScheduleEngine =
  day_start :: int
  day_end :: int
  now_min :: "int option"

definition ScheduleEngine_init :: "int \<Rightarrow> int \<Rightarrow> int option \<Rightarrow> error + ScheduleEngine" where
  "ScheduleEngine_init ds de nw =
     (if ds \<ge> de then Inl (ValueError ''Day start must be before day end.'')
      else Inr \<lparr>day_start = ds, day_end = de, now_min = nw\<rparr>)"

type_synonym interval = "int \<times> int \<times> string"

subsection \<open>merge_intervals and subtract_intervals\<close>

definition merge_step :: "interval list \<Rightarrow> interval \<Rightarrow> interval list" where
  "merge_step out x =
     (case x of (s, e, lab) \<Rightarrow>
        (case last out of (ls, le, ll) \<Rightarrow>
           if s \<le> le then butlast out @ [(ls, max le e, ll)]
           else out @ [(s, e, lab)]))"

definition merge_intervals :: "interval list \<Rightarrow> interval list" where
  "merge_intervals intervals =
     (case sort intervals of [] \<Rightarrow> [] | x # xs \<Rightarrow> foldl merge_step [x] xs)"

text \<open>
  The loop of \<^verbatim>\<open>subtract_intervals\<close> over the sorted clipped blocks: \<open>cur\<close> is the
  cursor, \<open>free\<close> the segments emitted so far; the \<^verbatim>\<open>break\<close> leaves the loop as
  soon as the cursor reaches \<open>end\<close>.
\<close>

fun subtract_loop :: "int \<Rightarrow> int \<Rightarrow> (int \<times> int) list \<Rightarrow> (int \<times> int) list
    \<Rightarrow> int \<times> (int \<times> int) list" where
  "subtract_loop en cur free [] = (cur, free)"
| "subtract_loop en cur free ((s, e) # bs) =
     (let free' = (if cur < s then free @ [(cur, s)] else free);
          cur' = max cur e
      in if cur' \<ge> en then (cur', free') else subtract_loop en cur' free' bs)"

definition clip_blocks :: "int \<Rightarrow> int \<Rightarrow> interval list \<Rightarrow> (int \<times> int) list" where
  "clip_blocks st en busy =
     filter (\<lambda>(s, e). s < e) (map (\<lambda>(s, e, _). (max st s, min en e)) busy)"

definition subtract_intervals :: "int \<Rightarrow> int \<Rightarrow> interval list \<Rightarrow> (int \<times> int) list" where
  "subtract_intervals st en busy =
     (let blocks = clip_blocks st en busy
      in if blocks = [] then [(st, en)]
         else (case subtract_loop en st [] (sort blocks) of
                 (cur, free) \<Rightarrow> if cur < en then free @ [(cur, en)] else free))"

subsection \<open>compute_adaptive_break\<close>

text \<open>
  The source scales the break budget in binary floating point:
  \<^verbatim>\<open>tired_mult = 1.0 + (tired / 10.0) * 0.75; max_break = int(max_break * tired_mult)\<close>.
  Each float operation is the exact operation on the rationals followed by the
  rounding \<open>rnd\<close> to the nearest double, and so is the conversion of an \<^verbatim>\<open>int\<close>
  operand; \<^verbatim>\<open>int(x)\<close> truncates towards zero; the constants 1.0, 10.0 and 0.75 are
  doubles exactly. The rounding \<open>rnd\<close> is a parameter of the model: what is proved
  holds for every rounding, except where a statement names the two facts it uses
  (rounding is monotone and leaves zero alone, as rounding to nearest does). The
  exact product can differ from the rounded one (for a budget of 100 and fatigue 2
  the exact value is 115 and the double truncates to 114). The range of the
  exponent is not modelled: a \<^verbatim>\<open>max_break\<close> beyond the largest double, for which the
  conversion raises \<^verbatim>\<open>OverflowError\<close>, is outside the model.
\<close>

definition py_int :: "rat \<Rightarrow> int" where
  "py_int x = (if 0 \<le> x then \<lfloor>x\<rfloor> else \<lceil>x\<rceil>)"

definition scaled_max_break :: "(rat \<Rightarrow> rat) \<Rightarrow> int \<Rightarrow> int \<Rightarrow> int" where
  "scaled_max_break rnd max_brk trd =
     (let tired_mult = rnd (1 + rnd (rnd (rnd (of_int trd) / 10) * (3 / 4)))
      in py_int (rnd (rnd (of_int max_brk) * tired_mult)))"

definition compute_adaptive_break ::
    "(rat \<Rightarrow> rat) \<Rightarrow> int \<Rightarrow> int \<Rightarrow> int \<Rightarrow> int \<Rightarrow> int \<Rightarrow> int \<Rightarrow> int" where
  "compute_adaptive_break rnd remaining_after current_end window_end max_brk trd min_gap =
     (let slack = max 0 (window_end - current_end - remaining_after);
          mb = scaled_max_break rnd max_brk trd;
          base = max min_gap 0
      in if mb \<le> 0 \<or> slack \<le> 5 then base
         else if slack \<le> 20 then max base (min 10 mb)
         else if slack \<le> 40 then max base (min 15 mb)
         else max base (min mb (max 20 (slack div 3))))"

subsection \<open>ScheduleEngine.plan\<close>

text \<open>
  The local function \<^verbatim>\<open>choose_free_segments\<close>: Python sorts the tuples
  \<^verbatim>\<open>(dist, -(fe-fs), (fs,fe))\<close> lexicographically and returns the segments.
\<close>

definition choose_free_segments :: "(int \<times> int) list \<Rightarrow> int \<Rightarrow> (int \<times> int) list" where
  "choose_free_segments free due =
     map (\<lambda>(_, _, seg). seg)
       (sort (map (\<lambda>(fs, fe). (\<bar>due - fe\<bar>, - (fe - fs), (fs, fe))) free))"

text \<open>
  The \<^verbatim>\<open>for fs,fe in reversed(ordered)\<close> loop up to its \<^verbatim>\<open>break\<close>: the first
  segment that passes both \<^verbatim>\<open>continue\<close> guards, with the minutes allocated in it.
  The caller passes the reversed list.
\<close>

fun select_segment :: "int \<Rightarrow> int \<Rightarrow> (int \<times> int) list \<Rightarrow> (int \<times> int \<times> int) option" where
  "select_segment blk rem [] = None"
| "select_segment blk rem ((fs, fe) # rest) =
     (let span = fe - fs in
      if span \<le> 0 then select_segment blk rem rest
      else let alloc = min blk (min rem span) in
        if alloc \<le> 0 then select_segment blk rem rest
        else Some (fs, fe, alloc))"

definition study_label :: "string \<Rightarrow> string \<Rightarrow> string" where
  "study_label crs ttl = ''Study: '' @ crs @ '' '' @ em_dash @ '' '' @ ttl"

definition study_block :: "int \<Rightarrow> int \<Rightarrow> WorkItem \<Rightarrow> PlanBlock" where
  "study_block s e w =
     \<lparr>start_min = s, end_min = e, label = study_label (course w) (title w), kind = ''study'',
      pb_course = course w, manual = False\<rparr>"

definition break_block :: "int \<Rightarrow> int \<Rightarrow> PlanBlock" where
  "break_block s e =
     \<lparr>start_min = s, end_min = e, label = ''Break'', kind = ''break'',
      pb_course = [], manual = False\<rparr>"

definition study_line :: "int \<Rightarrow> int \<Rightarrow> WorkItem \<Rightarrow> string" where
  "study_line s e w =
     fmt_min_to_time s @ '' - '' @ fmt_min_to_time e @ ''  '' @ study_label (course w) (title w)"

definition break_line :: "int \<Rightarrow> int \<Rightarrow> string" where
  "break_line s e = fmt_min_to_time s @ '' - '' @ fmt_min_to_time e @ ''  Break''"

definition no_window_line :: "WorkItem \<Rightarrow> string" where
  "no_window_line w =
     warn_sign @ '' No window left before '' @ fmt_min_to_time (due_min w) @ '' for ''
       @ course w @ '' '' @ em_dash @ '' '' @ title w"

definition shortfall_line :: "WorkItem \<Rightarrow> int \<Rightarrow> string" where
  "shortfall_line w r =
     warn_sign @ '' Not enough time before '' @ fmt_min_to_time (due_min w) @ '' for ''
       @ course w @ '' '' @ em_dash @ '' '' @ title w @ '': '' @ str_int r
       @ '' min left''"

text \<open>
  The arguments of one call that the loops read, with \<open>tired\<close> already clamped, and
  the variables the \<^verbatim>\<open>while remaining > 0\<close> loop of one task updates.
\<close>

record PlanArgs =
  busy :: "interval list"
  window_start :: int
  block_size :: int
  max_break :: int
  adaptive_breaks :: bool
  tired :: int
  min_gap_between_study :: int

record LoopState =
  remaining :: int
  window_end :: int
  plan_blocks :: "PlanBlock list"
  lines :: "string list"

definition block_intervals :: "PlanBlock list \<Rightarrow> interval list" where
  "block_intervals bs = map (\<lambda>b. (start_min b, end_min b, label b)) bs"

text \<open>The body of the \<^verbatim>\<open>for\<close> loop once a segment is taken (lines 234 to 254).\<close>

definition commit :: "(rat \<Rightarrow> rat) \<Rightarrow> PlanArgs \<Rightarrow> WorkItem \<Rightarrow> LoopState
    \<Rightarrow> int \<times> int \<times> int \<Rightarrow> LoopState" where
  "commit rnd a w st seg =
     (case seg of (fs, fe, alloc) \<Rightarrow>
        let start_time = fe - alloc;
            end_time = fe;
            blocks1 = plan_blocks st @ [study_block start_time end_time w];
            lines1 = lines st @ [study_line start_time end_time w];
            remaining1 = remaining st - alloc;
            brk = compute_adaptive_break rnd remaining1 start_time (window_end st)
                    (if adaptive_breaks a then max_break a else 0) (tired a)
                    (min_gap_between_study a + tired a * 3);
            bstart = max (window_start a) (start_time - brk);
            with_break = (remaining1 > 0 \<and> brk > 0 \<and> bstart < start_time)
        in \<lparr>remaining = remaining1,
            window_end = start_time,
            plan_blocks = (if with_break then blocks1 @ [break_block bstart start_time] else blocks1),
            lines = (if with_break then lines1 @ [break_line bstart start_time] else lines1)\<rparr>)"

text \<open>
  One iteration of \<^verbatim>\<open>while remaining > 0\<close>: \<open>None\<close> when the loop is left (the
  condition fails, \<^verbatim>\<open>free\<close> is empty, or nothing was placed), the next state
  otherwise.
\<close>

definition place_step :: "(rat \<Rightarrow> rat) \<Rightarrow> PlanArgs \<Rightarrow> WorkItem \<Rightarrow> LoopState
    \<Rightarrow> LoopState option" where
  "place_step rnd a w st =
     (if remaining st > 0 then
        (let free = subtract_intervals (window_start a) (window_end st)
                      (busy a @ block_intervals (plan_blocks st))
         in if free = [] then None
            else (case select_segment (block_size a) (remaining st)
                         (rev (choose_free_segments free (due_min w))) of
                    None \<Rightarrow> None
                  | Some seg \<Rightarrow> Some (commit rnd a w st seg)))
      else None)"

lemma select_segment_Some:
  "select_segment blk r sgs = Some (fs, fe, alloc) \<Longrightarrow>
     (fs, fe) \<in> set sgs \<and> 0 < alloc \<and> alloc = min blk (min r (fe - fs))"
  by (induction sgs) (auto simp: Let_def split: if_splits)

lemma place_step_remaining:
  assumes "place_step rnd a w st = Some st'"
  shows "0 < remaining st \<and> remaining st' < remaining st"
proof -
  from assms obtain fs fe alloc sgs where
    sel: "select_segment (block_size a) (remaining st) sgs = Some (fs, fe, alloc)"
    and st': "st' = commit rnd a w st (fs, fe, alloc)" and pos: "0 < remaining st"
    by (auto simp: place_step_def Let_def split: if_splits option.splits)
  have "0 < alloc" using select_segment_Some[OF sel] by blast
  then show ?thesis using pos by (simp add: st' commit_def Let_def)
qed

function place_loop :: "(rat \<Rightarrow> rat) \<Rightarrow> PlanArgs \<Rightarrow> WorkItem \<Rightarrow> LoopState \<Rightarrow> LoopState" where
  "place_loop rnd a w st =
     (case place_step rnd a w st of None \<Rightarrow> st | Some st' \<Rightarrow> place_loop rnd a w st')"
  by pat_completeness auto
termination
proof (relation "measure (\<lambda>(rnd, a, w, st). nat (remaining st))")
  show "wf (measure (\<lambda>(rnd, a, w, st). nat (remaining st)))" by simp
next
  fix rnd :: "rat \<Rightarrow> rat" and a w st st'
  assume "place_step rnd a w st = Some st'"
  from place_step_remaining[OF this]
  show "((rnd, a, w, st'), (rnd, a, w, st)) \<in> measure (\<lambda>(rnd, a, w, st). nat (remaining st))"
    by simp
qed

declare place_loop.simps [simp del]

text \<open>The body of \<^verbatim>\<open>for w in pending\<close>, on the pair (plan_blocks, lines).\<close>

definition plan_task :: "(rat \<Rightarrow> rat) \<Rightarrow> ScheduleEngine \<Rightarrow> PlanArgs \<Rightarrow> PlanBlock list \<times> string list
    \<Rightarrow> WorkItem \<Rightarrow> PlanBlock list \<times> string list" where
  "plan_task rnd eng a acc w =
     (case acc of (blocks, ls) \<Rightarrow>
        let w_end = min (day_end eng) (due_min w) in
        if w_end \<le> window_start a then (blocks, ls @ [no_window_line w])
        else
          let st = place_loop rnd a w
                     \<lparr>remaining = minutes_needed w, window_end = w_end,
                      plan_blocks = blocks, lines = ls\<rparr>
          in (plan_blocks st,
              if remaining st > 0 then lines st @ [shortfall_line w (remaining st)]
              else lines st))"

definition lecture_busy :: "ScheduleEngine \<Rightarrow> int \<Rightarrow> Lecture list \<Rightarrow> interval list" where
  "lecture_busy eng buf lectures =
     concat (map (\<lambda>lec.
        let s = max (day_start eng) (l_start_min lec - buf);
            e = min (day_end eng) (l_end_min lec + buf)
        in if e > s then [(s, e, ''Lecture: '' @ l_course lec)] else []) lectures)"

definition fixed_header :: string where
  "fixed_header = [CHR 10] @ em_dash @ '' Today'' @ rsquo @ ''s Fixed Items '' @ em_dash"

definition lecture_out :: "PlanBlock list \<times> string list \<Rightarrow> interval \<Rightarrow> PlanBlock list \<times> string list" where
  "lecture_out acc iv =
     (case acc of (blocks, ls) \<Rightarrow>
        (case iv of (s, e, lab) \<Rightarrow>
           if startswith lab ''Lecture'' then
             (blocks @ [\<lparr>start_min = s, end_min = e, label = lab, kind = ''lecture'',
                         pb_course = replace_first ''Lecture: '' [] lab, manual = False\<rparr>],
              ls @ [fmt_min_to_time s @ '' - '' @ fmt_min_to_time e @ ''  '' @ lab])
           else (blocks, ls)))"

definition pending_of :: "WorkItem list \<Rightarrow> WorkItem list" where
  "pending_of work =
     sort_key (\<lambda>w. (due_min w, - minutes_needed w)) (filter (\<lambda>w. \<not> prepared w) work)"

definition plan :: "(rat \<Rightarrow> rat) \<Rightarrow> ScheduleEngine \<Rightarrow> Lecture list \<Rightarrow> WorkItem list \<Rightarrow> int \<Rightarrow> int
    \<Rightarrow> bool \<Rightarrow> int \<Rightarrow> int \<Rightarrow> int \<Rightarrow> PlanBlock list \<times> string" where
  "plan rnd eng lectures work blk max_brk adaptive trd lecture_buffer_min min_gap =
     (let trd1 = max 1 (min 10 trd);
          bsy = merge_intervals (lecture_busy eng lecture_buffer_min lectures);
          start_bound = (case now_min eng of Some n \<Rightarrow> n | None \<Rightarrow> day_start eng);
          a = \<lparr>busy = bsy, window_start = start_bound, block_size = blk, max_break = max_brk,
               adaptive_breaks = adaptive, tired = trd1, min_gap_between_study = min_gap\<rparr>;
          acc1 = foldl (plan_task rnd eng a) ([], []) (pending_of work);
          acc2 = (fst acc1, snd acc1 @ [fixed_header]);
          acc3 = foldl lecture_out acc2 (sort bsy)
      in (fst acc3, join_lines (snd acc3)))"

text \<open>
  The same loop with a bound on the number of iterations: \<open>None\<close> when the bound is
  used up before the loop is left.
\<close>

fun place_fuel :: "nat \<Rightarrow> (rat \<Rightarrow> rat) \<Rightarrow> PlanArgs \<Rightarrow> WorkItem \<Rightarrow> LoopState \<Rightarrow> LoopState option" where
  "place_fuel 0 rnd a w st = None"
| "place_fuel (Suc n) rnd a w st =
     (case place_step rnd a w st of None \<Rightarrow> Some st | Some st' \<Rightarrow> place_fuel n rnd a w st')"

subsection \<open>App._get_tasks_for_day\<close>






subsection \<open>PlannerPanel.generate\<close>

text \<open>
  The part of \<^verbatim>\<open>generate\<close> between the parsed entry fields and the call of
  \<^verbatim>\<open>plan\<close>: the two validations, the construction of the engine, and the call with
  the keyword arguments of line 557. The fields already parsed, the clock reading
  \<open>nw\<close> and the results of the two callbacks are arguments; an exception, which the
  source shows in a message box, is the \<open>Inl\<close> result.
\<close>

definition generate :: "(rat \<Rightarrow> rat) \<Rightarrow> int \<Rightarrow> int \<Rightarrow> int \<Rightarrow> int \<Rightarrow> int \<Rightarrow> int option
    \<Rightarrow> Lecture list \<Rightarrow> WorkItem list \<Rightarrow> error + PlanBlock list \<times> string" where
  "generate rnd ds de blk max_brk trd nw lectures tasks_today =
     (if \<not> (0 \<le> ds \<and> ds < de \<and> de \<le> 24 * 60)
      then Inl (ValueError ''Day start must be before end'')
      else if blk \<le> 0 \<or> max_brk < 0
      then Inl (ValueError (''Block>0, MaxBreak'' @ ge_sign @ ''0''))
      else (case ScheduleEngine_init ds de nw of
              Inl e \<Rightarrow> Inl e
            | Inr eng \<Rightarrow> Inr (plan rnd eng lectures tasks_today blk max_brk True trd 30 10)))"

subsection \<open>Auxiliary notions of the statements\<close>

text \<open>The minutes a list of segments covers.\<close>

definition segs :: "(int \<times> int) list \<Rightarrow> int set" where
  "segs xs = (\<Union>(s, e)\<in>set xs. {s..<e})"



text \<open>The tuple \<^verbatim>\<open>choose_free_segments\<close> sorts by.\<close>

definition rank_key :: "int \<Rightarrow> int \<times> int \<Rightarrow> int \<times> int \<times> int \<times> int" where
  "rank_key due = (\<lambda>(fs, fe). (\<bar>due - fe\<bar>, - (fe - fs), (fs, fe)))"

text \<open>The minutes of the Study blocks of a list.\<close>

definition study_minutes :: "PlanBlock list \<Rightarrow> int" where
  "study_minutes bs = (\<Sum>b\<leftarrow>filter (\<lambda>b. kind b = ''study'') bs. end_min b - start_min b)"

text \<open>Every block of the list is a Study block of the task or a Break block.\<close>

definition task_blocks :: "WorkItem \<Rightarrow> PlanBlock list \<Rightarrow> bool" where
  "task_blocks w bs = list_all (\<lambda>b. b = study_block (start_min b) (end_min b) w
                                  \<or> b = break_block (start_min b) (end_min b)) bs"


text \<open>
  The invariants of claims C1 and C2, in the claims' words: no two blocks of the list
  have overlapping \<open>[start, end)\<close> intervals; a block has \<open>start < end\<close> and lies
  within the day.
\<close>

fun non_overlapping :: "PlanBlock list \<Rightarrow> bool" where
  "non_overlapping [] = True"
| "non_overlapping (b # bs) =
     (list_all (\<lambda>c. end_min b \<le> start_min c \<or> end_min c \<le> start_min b) bs
      \<and> non_overlapping bs)"

definition within_day :: "ScheduleEngine \<Rightarrow> PlanBlock \<Rightarrow> bool" where
  "within_day eng b =
     (start_min b < end_min b \<and> day_start eng \<le> start_min b \<and> end_min b \<le> day_end eng)"

text \<open>
  Notions for what the placement does guarantee: an interval inside the day; two
  blocks that do not overlap; a list in which every Study block is clear of all
  blocks before it; a list whose Study blocks are clear of the busy intervals.
\<close>

definition in_day :: "ScheduleEngine \<Rightarrow> interval \<Rightarrow> bool" where
  "in_day eng iv = (case iv of (s, e, l) \<Rightarrow> day_start eng \<le> s \<and> s < e \<and> e \<le> day_end eng)"

definition apart :: "PlanBlock \<Rightarrow> PlanBlock \<Rightarrow> bool" where
  "apart b c = (end_min b \<le> start_min c \<or> end_min c \<le> start_min b)"

definition studies_clear :: "PlanBlock list \<Rightarrow> bool" where
  "studies_clear bs =
     (\<forall>j<length bs. kind (bs ! j) = ''study'' \<longrightarrow> (\<forall>i<j. apart (bs ! i) (bs ! j)))"

definition clear_of_busy :: "interval list \<Rightarrow> PlanBlock list \<Rightarrow> bool" where
  "clear_of_busy bsy bs =
     (\<forall>b\<in>set bs. kind b = ''study'' \<longrightarrow>
        (\<forall>(s, e, l)\<in>set bsy. e \<le> start_min b \<or> end_min b \<le> s))"

definition placement_inv :: "interval list \<Rightarrow> PlanBlock list \<Rightarrow> bool" where
  "placement_inv bsy bs =
     (list_all (\<lambda>b. start_min b < end_min b) bs \<and> studies_clear bs \<and> clear_of_busy bsy bs)"

section \<open>Properties\<close>

subsection \<open>subtract_intervals\<close>

lemma segs_simps [simp]:
  "segs [] = {}" "segs (x # xs) = {fst x..<snd x} \<union> segs xs" "segs (xs @ ys) = segs xs \<union> segs ys"
  by (auto simp: segs_def)

lemma subtract_loop_append:
  "subtract_loop en cur free bs = (fst (subtract_loop en cur [] bs), free @ snd (subtract_loop en cur [] bs))"
proof (induction bs arbitrary: cur free)
  case Nil
  then show ?case by simp
next
  case (Cons b bs)
  obtain s e where b: "b = (s, e)" by (cases b)
  show ?case
    using Cons.IH[of "max cur e" "free @ [(cur, s)]"] Cons.IH[of "max cur e" "free"]
      Cons.IH[of "max cur e" "[(cur, s)]"]
    by (simp add: b Let_def)
qed

lemma subtract_loop_inv:
  assumes "sorted (map fst bs)" "\<forall>(s, e)\<in>set bs. s < e \<and> e \<le> en" "cur \<le> en"
    "subtract_loop en cur [] bs = (cur', new)"
  shows "cur \<le> cur' \<and> cur' \<le> en
    \<and> (\<forall>(a, b)\<in>set new. cur \<le> a \<and> a < b \<and> b \<le> cur')
    \<and> sorted_wrt (\<lambda>x y. snd x \<le> fst y) new
    \<and> segs bs \<subseteq> {..<cur'}
    \<and> {cur..<cur'} \<subseteq> segs new \<union> segs bs
    \<and> segs new \<inter> segs bs = {}"
  using assms
proof (induction bs arbitrary: cur cur' new)
  case Nil
  then show ?case by simp
next
  case (Cons b bs)
  obtain s e where b: "b = (s, e)" by (cases b)
  define free1 where "free1 = (if cur < s then [(cur, s)] else [])"
  define c1 where "c1 = max cur e"
  have se: "s < e" "e \<le> en" using Cons.prems(2) by (auto simp: b)
  have later: "\<forall>(s', e')\<in>set bs. s \<le> s' \<and> s' < e' \<and> e' \<le> en"
    using Cons.prems(1,2) by (auto simp: b)
  have bs_after: "segs bs \<subseteq> {s..<en}"
    using later by (auto simp: segs_def)
  have c1: "cur \<le> c1" "e \<le> c1" "c1 \<le> en" using se Cons.prems(3) by (auto simp: c1_def)
  have f1: "\<forall>(a, b)\<in>set free1. cur \<le> a \<and> a < b \<and> b \<le> s" "segs free1 = {cur..<s}"
    by (auto simp: free1_def)
  show ?case
  proof (cases "c1 \<ge> en")
    case True
    then have res: "cur' = c1" "new = free1"
      using Cons.prems(4) by (auto simp: b Let_def c1_def free1_def)
    have "c1 = en" using True c1 by simp
    then show ?thesis
      using f1 se c1 bs_after unfolding res
      apply (intro conjI)
            apply simp
           apply simp
          apply fastforce
         apply (simp add: free1_def)
        apply (auto simp: b)[1]
       apply (auto simp: b c1_def)[1]
      apply (auto simp: b)[1]
      done
  next
    case False
    define new2 where "new2 = snd (subtract_loop en c1 [] bs)"
    have step: "subtract_loop en cur [] (b # bs) = subtract_loop en c1 free1 bs"
      using False by (simp add: b Let_def c1_def free1_def)
    have "(cur', new) = (fst (subtract_loop en c1 [] bs), free1 @ new2)"
      using Cons.prems(4) subtract_loop_append[of en c1 free1 bs] unfolding step new2_def by simp
    then have rec: "subtract_loop en c1 [] bs = (cur', new2)" and new: "new = free1 @ new2"
      by (simp_all add: new2_def)
    have srt: "sorted (map fst bs)" using Cons.prems(1) by simp
    have bnd: "\<forall>(s, e)\<in>set bs. s < e \<and> e \<le> en" using Cons.prems(2) by simp
    note IH = Cons.IH[OF srt bnd c1(3) rec]
    have n2: "\<forall>(a, b)\<in>set new2. c1 \<le> a \<and> a < b \<and> b \<le> cur'" using IH by blast
    have n2s: "segs new2 \<subseteq> {c1..<cur'}" using n2 by (fastforce simp: segs_def)
    have i1: "c1 \<le> cur'" and i2: "cur' \<le> en" and i4: "sorted_wrt (\<lambda>x y. snd x \<le> fst y) new2"
      and i5: "segs bs \<subseteq> {..<cur'}" and i6: "{c1..<cur'} \<subseteq> segs new2 \<union> segs bs"
      and i7: "segs new2 \<inter> segs bs = {}"
      using IH by blast+
    have g3: "\<forall>(a, b)\<in>set (free1 @ new2). cur \<le> a \<and> a < b \<and> b \<le> cur'"
      using n2 f1(1) c1 se i1 by fastforce
    have g4: "sorted_wrt (\<lambda>x y. snd x \<le> fst y) (free1 @ new2)"
      unfolding sorted_wrt_append using i4 n2 c1 se by (fastforce simp: free1_def)
    have g5: "segs (b # bs) \<subseteq> {..<cur'}"
      using i5 c1 i1 by (auto simp: b)
    have g6: "{cur..<cur'} \<subseteq> segs (free1 @ new2) \<union> segs (b # bs)"
    proof
      fix x assume x: "x \<in> {cur..<cur'}"
      show "x \<in> segs (free1 @ new2) \<union> segs (b # bs)"
      proof (cases "x < s")
        case True
        then have "x \<in> segs free1" using x f1(2) by simp
        then show ?thesis by simp
      next
        case False
        show ?thesis
        proof (cases "x < e")
          case True
          then show ?thesis using False by (simp add: b)
        next
          case ge: False
          then have "x \<in> {c1..<cur'}" using x by (simp add: c1_def)
          then show ?thesis using i6 by auto
        qed
      qed
    qed
    have g7: "segs (free1 @ new2) \<inter> segs (b # bs) = {}"
    proof -
      have "segs free1 \<inter> {s..<e} = {}" using f1(2) by auto
      moreover have "segs free1 \<inter> segs bs = {}" using f1(2) bs_after by auto
      moreover have "segs new2 \<inter> {s..<e} = {}" using n2s c1 by auto
      ultimately show ?thesis using i7 by (auto simp: b)
    qed
    show ?thesis
      unfolding new using c1(1) i1 i2 g3 g4 g5 g6 g7 by simp
  qed
qed


lemma sorted_fst_of_sorted_pairs:
  fixes xs :: "(int \<times> int) list"
  assumes "sorted xs"
  shows "sorted (map fst xs)"
  using assms by (induction xs) (auto simp: less_eq_prod_def)

lemma clip_blocks_bounds:
  "(s, e) \<in> set (clip_blocks st en bsy) \<Longrightarrow> st \<le> s \<and> s < e \<and> e \<le> en"
  by (auto simp: clip_blocks_def)

lemma segs_clip_blocks:
  "segs (clip_blocks st en bsy) = (\<Union>(s, e, l)\<in>set bsy. {max st s..<min en e})"
  by (auto simp: clip_blocks_def segs_def)

lemma segs_sort [simp]: "segs (sort xs) = segs xs"
  by (simp add: segs_def)

lemma subtract_intervals_props:
  assumes "st \<le> en"
  shows "(\<forall>(a, b)\<in>set (subtract_intervals st en bsy). st \<le> a \<and> b \<le> en \<and> (st < en \<longrightarrow> a < b)) \<and>
      sorted_wrt (\<lambda>x y. snd x \<le> fst y) (subtract_intervals st en bsy) \<and>
      segs (subtract_intervals st en bsy) \<union> segs (clip_blocks st en bsy) = {st..<en} \<and>
      segs (subtract_intervals st en bsy) \<inter> segs (clip_blocks st en bsy) = {}"
proof -
  define blocks where "blocks = clip_blocks st en bsy"
  define free where "free = subtract_intervals st en bsy"
  have "(\<forall>(a, b)\<in>set free. st \<le> a \<and> b \<le> en \<and> (st < en \<longrightarrow> a < b)) \<and>
      sorted_wrt (\<lambda>x y. snd x \<le> fst y) free \<and>
      segs free \<union> segs blocks = {st..<en} \<and>
      segs free \<inter> segs blocks = {}"
  proof (cases "blocks = []")
    case True
    then have "free = [(st, en)]" by (simp add: free_def subtract_intervals_def blocks_def)
    then show ?thesis
      using True assms(1) by simp
  next
    case False
    obtain cur new where loop: "subtract_loop en st [] (sort blocks) = (cur, new)"
      by (cases "subtract_loop en st [] (sort blocks)")
    have free: "free = (if cur < en then new @ [(cur, en)] else new)"
      using False loop by (simp add: free_def subtract_intervals_def blocks_def[symmetric])
    have bnd: "\<forall>(s, e)\<in>set (sort blocks). s < e \<and> e \<le> en"
      using clip_blocks_bounds[of _ _ st en bsy] by (auto simp: blocks_def)
    have inside: "segs blocks \<subseteq> {st..<en}"
      using clip_blocks_bounds[of _ _ st en bsy] by (fastforce simp: blocks_def segs_def)
    have srt: "sorted (map fst (sort blocks))"
      by (rule sorted_fst_of_sorted_pairs) simp
    note inv = subtract_loop_inv[OF srt bnd assms(1) loop]
    have i1: "st \<le> cur" and i2: "cur \<le> en"
      and i3: "\<forall>(a, b)\<in>set new. st \<le> a \<and> a < b \<and> b \<le> cur"
      and i4: "sorted_wrt (\<lambda>x y. snd x \<le> fst y) new"
      and i5: "segs blocks \<subseteq> {..<cur}" and i6: "{st..<cur} \<subseteq> segs new \<union> segs blocks"
      and i7: "segs new \<inter> segs blocks = {}"
      using inv by simp_all
    have ns: "segs new \<subseteq> {st..<cur}" using i3 by (fastforce simp: segs_def)
    have g1: "\<forall>(a, b)\<in>set free. st \<le> a \<and> b \<le> en \<and> (st < en \<longrightarrow> a < b)"
      using i1 i2 i3 unfolding free by (auto split: if_splits)
    have g2: "sorted_wrt (\<lambda>x y. snd x \<le> fst y) free"
      using i3 i4 unfolding free by (auto simp: sorted_wrt_append split: if_splits)
    have fr: "segs free = segs new \<union> {cur..<en}"
      unfolding free by auto
    have "x \<in> {st..<cur}" if "x \<in> segs blocks" for x
      using that inside i5 by fastforce
    then have "segs new \<union> segs blocks \<subseteq> {st..<cur}"
      using ns by blast
    then have L: "segs new \<union> segs blocks = {st..<cur}"
      using i6 by (rule subset_antisym)
    have "segs free \<union> segs blocks = (segs new \<union> segs blocks) \<union> {cur..<en}"
      unfolding fr by auto
    also have "\<dots> = {st..<en}"
      unfolding L using i1 i2 by auto
    finally have g3: "segs free \<union> segs blocks = {st..<en}" .
    have g4: "segs free \<inter> segs blocks = {}"
      using i5 i7 unfolding fr by auto
    show ?thesis
      using g1 g2 g3 g4 by simp
  qed
  then show ?thesis by (simp add: blocks_def free_def)
qed


text \<open>
  Claim C6. For \<open>st < en\<close> and any list of labelled busy intervals, the segments that
  \<^verbatim>\<open>subtract_intervals\<close> returns are sorted by start, each ends before the next one
  starts (so no two overlap), each has strictly positive length, and together with
  the busy intervals clipped to \<open>[st, en)\<close> they cover exactly \<open>[st, en)\<close>; no free
  segment meets a clipped busy interval.
\<close>

theorem subtract_intervals_partition:
  assumes "st < en"
  shows "sorted (map fst (subtract_intervals st en bsy))
    \<and> sorted_wrt (\<lambda>(a, b) (c, d). b \<le> c) (subtract_intervals st en bsy)
    \<and> (\<forall>(a, b)\<in>set (subtract_intervals st en bsy). a < b)
    \<and> (\<Union>(a, b)\<in>set (subtract_intervals st en bsy). {a..<b})
        \<union> (\<Union>(s, e, l)\<in>set bsy. {s..<e} \<inter> {st..<en}) = {st..<en}
    \<and> (\<Union>(a, b)\<in>set (subtract_intervals st en bsy). {a..<b})
        \<inter> (\<Union>(s, e, l)\<in>set bsy. {s..<e} \<inter> {st..<en}) = {}"
proof -
  define free where "free = subtract_intervals st en bsy"
  have le: "st \<le> en" using assms by simp
  have clip: "segs (clip_blocks st en bsy) = (\<Union>(s, e, l)\<in>set bsy. {s..<e} \<inter> {st..<en})"
    unfolding segs_clip_blocks by (rule SUP_cong) auto
  have p1: "\<forall>(a, b)\<in>set free. a < b"
    and p2: "sorted_wrt (\<lambda>x y. snd x \<le> fst y) free"
    and p3: "segs free \<union> segs (clip_blocks st en bsy) = {st..<en}"
    and p4: "segs free \<inter> segs (clip_blocks st en bsy) = {}"
    using subtract_intervals_props[OF le, of bsy] assms unfolding free_def by auto
  have q2: "sorted_wrt (\<lambda>(a, b) (c, d). b \<le> c) free"
    using p2 by (simp add: case_prod_unfold)
  have "sorted_wrt (\<lambda>x y. fst x \<le> fst y) free"
    using p1 by (intro sorted_wrt_mono_rel[OF _ p2]) fastforce
  then have q1: "sorted (map fst free)"
    by (simp add: sorted_map)
  show ?thesis
    using q1 q2 p1 p3 p4 unfolding clip free_def[symmetric] by (simp add: segs_def)
qed

theorem subtract_intervals_partition_witness:
  "(0::int) < 10
   \<and> subtract_intervals 0 10 [(2, 4, ''a''), (8, 12, ''b'')] = [(0, 2), (4, 8)]
   \<and> sorted (map fst (subtract_intervals 0 10 [(2, 4, ''a''), (8, 12, ''b'')]))
   \<and> (\<Union>(a, b)\<in>set (subtract_intervals 0 10 [(2, 4, ''a''), (8, 12, ''b'')]). {a..<b})
        \<union> (\<Union>(s, e, l)\<in>set [(2, 4, ''a''), (8, 12, ''b'')]. {s..<e} \<inter> {0..<10}) = {0..<10}"
proof -
  have ev: "subtract_intervals 0 10 [(2, 4, ''a''), (8, 12, ''b'')] = [(0, 2), (4, 8)]"
    by code_simp
  have h: "(0::int) < 10" by simp
  from subtract_intervals_partition[OF h, of "[(2, 4, ''a''), (8, 12, ''b'')]"] ev h
  show ?thesis by blast
qed

subsection \<open>compute_adaptive_break\<close>













subsection \<open>Configuration errors\<close>

text \<open>
  Claim C3. A configuration with \<open>day_start \<ge> day_end\<close>, \<open>block_size \<le> 0\<close> or
  \<open>max_break < 0\<close> makes the scheduling call fail with an error before any placement:
  the constructor of the engine raises for \<open>day_start \<ge> day_end\<close>, and \<^verbatim>\<open>generate\<close>
  returns the same error whatever the lectures and tasks are, so no block is returned.
\<close>

theorem config_error_before_placement:
  "(de \<le> ds \<longrightarrow> ScheduleEngine_init ds de nw = Inl (ValueError ''Day start must be before day end.''))
   \<and> (de \<le> ds \<or> blk \<le> 0 \<or> mb < 0 \<longrightarrow>
        (\<exists>e. \<forall>lectures tasks_today. generate rnd ds de blk mb trd nw lectures tasks_today = Inl e))"
proof (intro conjI impI)
  assume "de \<le> ds"
  then show "ScheduleEngine_init ds de nw = Inl (ValueError ''Day start must be before day end.'')"
    by (simp add: ScheduleEngine_init_def)
next
  assume bad: "de \<le> ds \<or> blk \<le> 0 \<or> mb < 0"
  show "\<exists>e. \<forall>lectures tasks_today. generate rnd ds de blk mb trd nw lectures tasks_today = Inl e"
  proof (cases "0 \<le> ds \<and> ds < de \<and> de \<le> 24 * 60")
    case False
    then have "\<forall>lectures tasks_today. generate rnd ds de blk mb trd nw lectures tasks_today
        = Inl (ValueError ''Day start must be before end'')"
      unfolding generate_def by simp
    then show ?thesis by (rule exI)
  next
    case True
    then have "blk \<le> 0 \<or> mb < 0" using bad by simp
    then have "\<forall>lectures tasks_today. generate rnd ds de blk mb trd nw lectures tasks_today
        = Inl (ValueError (''Block>0, MaxBreak'' @ ge_sign @ ''0''))"
      unfolding generate_def using True by simp
    then show ?thesis by (rule exI)
  qed
qed

theorem config_error_before_placement_witness:
  "ScheduleEngine_init 600 480 None = Inl (ValueError ''Day start must be before day end.'')
   \<and> (\<exists>e. \<forall>lectures tasks_today. generate (\<lambda>x. x) 600 480 60 60 3 None lectures tasks_today = Inl e)
   \<and> (\<exists>e. \<forall>lectures tasks_today. generate (\<lambda>x. x) 480 1320 0 60 3 None lectures tasks_today = Inl e)
   \<and> (\<exists>e. \<forall>lectures tasks_today. generate (\<lambda>x. x) 480 1320 60 (- 1) 3 None lectures tasks_today = Inl e)"
  using config_error_before_placement[of 480 600 None 60 60 "\<lambda>x. x" 3]
    config_error_before_placement[of 1320 480 None 0 60 "\<lambda>x. x" 3]
    config_error_before_placement[of 1320 480 None 60 "- 1" "\<lambda>x. x" 3]
  by simp

subsection \<open>The fatigue level is clamped\<close>



subsection \<open>The share of a day\<close>








subsection \<open>The ranking of free segments\<close>

lemma choose_alt:
  "choose_free_segments free due = map (snd \<circ> snd) (sort (map (rank_key due) free))"
  by (simp add: choose_free_segments_def rank_key_def case_prod_unfold comp_def)

lemma third_key [simp]: "snd (snd (rank_key due s)) = s"
  by (cases s) (simp add: rank_key_def)

lemma mset_choose: "mset (choose_free_segments free due) = mset free"
proof -
  have "mset (choose_free_segments free due) = image_mset (snd \<circ> snd) (mset (sort (map (rank_key due) free)))"
    unfolding choose_alt by simp
  also have "\<dots> = image_mset (snd \<circ> snd) (image_mset (rank_key due) (mset free))"
    by simp
  also have "\<dots> = mset free"
    by (simp add: image_mset.compositionality comp_def)
  finally show ?thesis .
qed

lemma set_choose [simp]: "set (choose_free_segments free due) = set free"
  using mset_choose[of free due] by (metis set_mset_mset)

lemma keys_of_choose:
  "map (rank_key due) (choose_free_segments free due) = sort (map (rank_key due) free)"
proof -
  have "rank_key due (snd (snd x)) = x" if "x \<in> set (sort (map (rank_key due) free))" for x
  proof -
    from that obtain s where "x = rank_key due s" by auto
    then show ?thesis by simp
  qed
  then have "map (\<lambda>x. rank_key due (snd (snd x))) (sort (map (rank_key due) free))
      = sort (map (rank_key due) free)"
    by (intro map_idI)
  then show ?thesis unfolding choose_alt by (simp add: comp_def)
qed

lemma sorted_choose:
  "sorted_wrt (\<lambda>(fs, fe) (fs', fe').
      \<bar>due - fe\<bar> < \<bar>due - fe'\<bar> \<or> (\<bar>due - fe\<bar> = \<bar>due - fe'\<bar> \<and> fe' - fs' \<le> fe - fs))
    (choose_free_segments free due)"
proof -
  have "sorted (map (rank_key due) (choose_free_segments free due))"
    unfolding keys_of_choose by simp
  then have "sorted_wrt (\<lambda>x y. rank_key due x \<le> rank_key due y) (choose_free_segments free due)"
    by (simp add: sorted_map)
  then show ?thesis
    by (rule sorted_wrt_mono_rel[rotated]) (auto simp: rank_key_def less_eq_prod_def)
qed

lemma select_segment_snoc:
  "select_segment blk r (rev (xs @ [(fs, fe)])) =
     (if fe - fs \<le> 0 then select_segment blk r (rev xs)
      else if min blk (min r (fe - fs)) \<le> 0 then select_segment blk r (rev xs)
      else Some (fs, fe, min blk (min r (fe - fs))))"
  by (simp add: Let_def)

lemma select_segment_last:
  assumes "0 < blk" "0 < r"
  shows "select_segment blk r (rev xs) =
     (let pos = filter (\<lambda>(fs, fe). 0 < fe - fs) xs in
      if pos = [] then None
      else Some (fst (last pos), snd (last pos), min blk (min r (snd (last pos) - fst (last pos)))))"
proof (induction xs rule: rev_induct)
  case Nil
  then show ?case by simp
next
  case (snoc x xs)
  obtain fs fe where x: "x = (fs, fe)" by (cases x)
  show ?case
  proof (cases "0 < fe - fs")
    case True
    then have "\<not> min blk (min r (fe - fs)) \<le> 0" using assms by simp
    then show ?thesis
      unfolding x select_segment_snoc using True by (simp add: Let_def)
  next
    case False
    then show ?thesis
      unfolding x select_segment_snoc using snoc.IH by (simp add: Let_def)
  qed
qed


lemma farthest_last:
  assumes "pos = filter (\<lambda>(fs, fe). 0 < fe - fs) (choose_free_segments free due)" "p \<in> set pos"
  shows "\<bar>due - snd p\<bar> \<le> \<bar>due - snd (last pos)\<bar>"
proof -
  let ?R = "\<lambda>(fs, fe) (fs', fe').
      \<bar>due - fe\<bar> < \<bar>due - fe'\<bar> \<or> (\<bar>due - fe\<bar> = \<bar>due - fe'\<bar> \<and> fe' - fs' \<le> fe - (fs::int))"
  have srt: "sorted_wrt ?R pos"
    unfolding assms(1) by (rule sorted_wrt_filter[OF sorted_choose])
  from assms(2) have ne: "pos \<noteq> []" by auto
  then obtain ys l where pos: "pos = ys @ [l]" by (metis rev_exhaust)
  show ?thesis
  proof (cases "p = l")
    case True
    then show ?thesis by (simp add: pos)
  next
    case False
    then have "p \<in> set ys" using assms(2) by (simp add: pos)
    then have "?R p l" using srt by (auto simp: pos sorted_wrt_append)
    then show ?thesis by (auto simp: pos case_prod_unfold)
  qed
qed

text \<open>
  Claim C4. In every iteration of the placement loop (with a positive block size)
  the free segments are ranked by ascending distance from the segment's end to the
  due minute, ties by the larger segment first; the ranking is a rearrangement of
  the free segments; and the segment committed to is the last positive-length
  segment of that ranking, the first one met when it is walked in reverse: no
  positive-length segment ends farther from the due minute. The loop is left when
  no segment has positive length.
\<close>

theorem reverse_ranking_selection:
  assumes "0 < block_size a"
  shows "let free = subtract_intervals (window_start a) (window_end st)
                      (busy a @ block_intervals (plan_blocks st));
             ordered = choose_free_segments free (due_min w);
             pos = filter (\<lambda>(fs, fe). 0 < fe - fs) ordered
         in mset ordered = mset free
          \<and> sorted_wrt (\<lambda>(fs, fe) (fs', fe').
                \<bar>due_min w - fe\<bar> < \<bar>due_min w - fe'\<bar>
                \<or> (\<bar>due_min w - fe\<bar> = \<bar>due_min w - fe'\<bar> \<and> fe' - fs' \<le> fe - fs)) ordered
          \<and> place_step rnd a w st =
               (if remaining st \<le> 0 \<or> pos = [] then None
                else Some (commit rnd a w st
                       (fst (last pos), snd (last pos),
                        min (block_size a) (min (remaining st) (snd (last pos) - fst (last pos))))))
          \<and> (\<forall>(fs, fe)\<in>set pos. \<bar>due_min w - fe\<bar> \<le> \<bar>due_min w - snd (last pos)\<bar>)"
proof -
  define free where "free = subtract_intervals (window_start a) (window_end st)
                      (busy a @ block_intervals (plan_blocks st))"
  define ordered where "ordered = choose_free_segments free (due_min w)"
  define pos where "pos = filter (\<lambda>(fs, fe). 0 < fe - fs) ordered"
  have g1: "mset ordered = mset free"
    unfolding ordered_def by (rule mset_choose)
  have g2: "sorted_wrt (\<lambda>(fs, fe) (fs', fe').
                \<bar>due_min w - fe\<bar> < \<bar>due_min w - fe'\<bar>
                \<or> (\<bar>due_min w - fe\<bar> = \<bar>due_min w - fe'\<bar> \<and> fe' - fs' \<le> fe - fs)) ordered"
    unfolding ordered_def by (rule sorted_choose)
  have g4: "\<forall>(fs, fe)\<in>set pos. \<bar>due_min w - fe\<bar> \<le> \<bar>due_min w - snd (last pos)\<bar>"
    using farthest_last[of pos free "due_min w"] unfolding pos_def ordered_def by auto
  have g3: "place_step rnd a w st =
               (if remaining st \<le> 0 \<or> pos = [] then None
                else Some (commit rnd a w st
                       (fst (last pos), snd (last pos),
                        min (block_size a) (min (remaining st) (snd (last pos) - fst (last pos))))))"
  proof (cases "0 < remaining st")
    case False
    then show ?thesis by (simp add: place_step_def)
  next
    case True
    have sel: "select_segment (block_size a) (remaining st) (rev ordered) =
       (if pos = [] then None
        else Some (fst (last pos), snd (last pos),
               min (block_size a) (min (remaining st) (snd (last pos) - fst (last pos)))))"
      using select_segment_last[OF assms True, of ordered] by (simp add: pos_def Let_def)
    have "pos = []" if "free = []"
      using that by (simp add: pos_def ordered_def choose_free_segments_def)
    then show ?thesis
      using True sel
      by (auto simp: place_step_def Let_def free_def[symmetric] ordered_def[symmetric])
  qed
  show ?thesis
    using g1 g2 g3 g4
    unfolding Let_def free_def[symmetric] ordered_def[symmetric] pos_def[symmetric] by blast
qed


theorem reverse_ranking_selection_witness:
  "choose_free_segments
      (subtract_intervals 480 900 ([(570, 690, ''Lecture: Alg'')] @ block_intervals [])) 900
     = [(690, 900), (480, 570)]
   \<and> place_step (\<lambda>x. x)
        \<lparr>busy = [(570, 690, ''Lecture: Alg'')], window_start = 480, block_size = 60,
          max_break = 60, adaptive_breaks = True, tired = 3, min_gap_between_study = 10\<rparr>
        \<lparr>course = ''M'', title = ''hw'', date_iso = ''2025-03-03'', due_min = 900,
          minutes_needed = 90, prepared = False, repeat_weekly = False\<rparr>
        \<lparr>remaining = 90, window_end = 900, plan_blocks = [], lines = []\<rparr>
     = Some (commit (\<lambda>x. x)
        \<lparr>busy = [(570, 690, ''Lecture: Alg'')], window_start = 480, block_size = 60,
          max_break = 60, adaptive_breaks = True, tired = 3, min_gap_between_study = 10\<rparr>
        \<lparr>course = ''M'', title = ''hw'', date_iso = ''2025-03-03'', due_min = 900,
          minutes_needed = 90, prepared = False, repeat_weekly = False\<rparr>
        \<lparr>remaining = 90, window_end = 900, plan_blocks = [], lines = []\<rparr>
        (480, 570, 60))"
proof -
  define a where "a = \<lparr>busy = [(570, 690, ''Lecture: Alg'')], window_start = 480, block_size = 60,
          max_break = 60, adaptive_breaks = True, tired = 3, min_gap_between_study = 10\<rparr>"
  define w where "w = \<lparr>course = ''M'', title = ''hw'', date_iso = ''2025-03-03'', due_min = 900,
          minutes_needed = 90, prepared = False, repeat_weekly = False\<rparr>"
  define st where "st = \<lparr>remaining = 90, window_end = 900, plan_blocks = [], lines = []\<rparr>"
  have ev: "choose_free_segments
      (subtract_intervals 480 900 ([(570, 690, ''Lecture: Alg'')] @ block_intervals [])) 900
     = [(690, 900), (480, 570)]"
    by code_simp
  have v: "remaining st = 90" "block_size a = 60"
    by (simp_all add: a_def st_def)
  define ps :: "(int \<times> int) list" where "ps = [(690, 900), (480, 570)]"
  have ev2: "choose_free_segments
      (subtract_intervals (window_start a) (window_end st)
         (busy a @ block_intervals (plan_blocks st))) (due_min w) = ps"
    using ev by (simp add: a_def st_def w_def ps_def)
  have h: "0 < block_size a" by (simp add: a_def)
  from reverse_ranking_selection[OF h, of st w "\<lambda>x. x"]
  have "place_step (\<lambda>x. x) a w st =
      (if remaining st \<le> 0 \<or> filter (\<lambda>(fs, fe). 0 < fe - fs) ps = [] then None
       else Some (commit (\<lambda>x. x) a w st
              (fst (last (filter (\<lambda>(fs, fe). 0 < fe - fs) ps)),
               snd (last (filter (\<lambda>(fs, fe). 0 < fe - fs) ps)),
               min (block_size a) (min (remaining st)
                 (snd (last (filter (\<lambda>(fs, fe). 0 < fe - fs) ps))
                  - fst (last (filter (\<lambda>(fs, fe). 0 < fe - fs) ps)))))))"
    unfolding Let_def ev2 by blast
  then have "place_step (\<lambda>x. x) a w st = Some (commit (\<lambda>x. x) a w st (480, 570, 60))"
    unfolding v ps_def by simp
  then show ?thesis
    using ev unfolding a_def w_def st_def by simp
qed

subsection \<open>Termination of the placement loop\<close>

lemma subtract_intervals_inverted:
  assumes "en < st"
  shows "subtract_intervals st en bsy = [(st, en)]"
proof -
  have "clip_blocks st en bsy = []"
    using assms by (auto simp: clip_blocks_def filter_empty_conv)
  then show ?thesis by (simp add: subtract_intervals_def)
qed

lemma free_segment_bounds:
  assumes "(fs, fe) \<in> set (subtract_intervals st en bsy)" "fs < fe"
  shows "st \<le> fs \<and> fe \<le> en"
proof (cases "st \<le> en")
  case True
  from subtract_intervals_props[OF True, of bsy] assms(1) show ?thesis by blast
next
  case False
  then have "subtract_intervals st en bsy = [(st, en)]"
    by (intro subtract_intervals_inverted) simp
  then show ?thesis using assms False by simp
qed

lemma place_step_Some:
  assumes "place_step rnd a w st = Some st'"
  obtains fs fe alloc where
    "(fs, fe) \<in> set (subtract_intervals (window_start a) (window_end st)
                      (busy a @ block_intervals (plan_blocks st)))"
    "0 < alloc" "alloc = min (block_size a) (min (remaining st) (fe - fs))"
    "0 < remaining st" "st' = commit rnd a w st (fs, fe, alloc)"
proof -
  from assms obtain fs fe alloc where
    sel: "select_segment (block_size a) (remaining st)
            (rev (choose_free_segments (subtract_intervals (window_start a) (window_end st)
                      (busy a @ block_intervals (plan_blocks st))) (due_min w))) = Some (fs, fe, alloc)"
    and st': "st' = commit rnd a w st (fs, fe, alloc)" and pos: "0 < remaining st"
    by (auto simp: place_step_def Let_def split: if_splits option.splits)
  from select_segment_Some[OF sel] have
    m: "(fs, fe) \<in> set (rev (choose_free_segments (subtract_intervals (window_start a) (window_end st)
                      (busy a @ block_intervals (plan_blocks st))) (due_min w)))"
    and al: "0 < alloc" "alloc = min (block_size a) (min (remaining st) (fe - fs))"
    by blast+
  from m have "(fs, fe) \<in> set (subtract_intervals (window_start a) (window_end st)
                      (busy a @ block_intervals (plan_blocks st)))"
    by simp
  then show ?thesis using that st' pos al by blast
qed

lemma place_step_shrinks:
  assumes "place_step rnd a w st = Some st'"
  shows "window_start a \<le> window_end st' \<and> window_end st' < window_end st"
proof -
  from assms obtain fs fe alloc where
    mem: "(fs, fe) \<in> set (subtract_intervals (window_start a) (window_end st)
                      (busy a @ block_intervals (plan_blocks st)))"
    and al: "0 < alloc" "alloc = min (block_size a) (min (remaining st) (fe - fs))"
    and st': "st' = commit rnd a w st (fs, fe, alloc)"
    by (rule place_step_Some)
  have le: "alloc \<le> fe - fs" using al(2) by simp
  then have "fs < fe" using al(1) by simp
  from free_segment_bounds[OF mem this] have "window_start a \<le> fs" "fe \<le> window_end st" by simp_all
  moreover have "window_end st' = fe - alloc" by (simp add: st' commit_def Let_def)
  ultimately show ?thesis using le al(1) by simp
qed

lemma place_fuel_enough:
  "nat (window_end st - window_start a) \<le> n \<Longrightarrow>
     place_fuel (Suc n) rnd a w st = Some (place_loop rnd a w st)"
proof (induction n arbitrary: st)
  case 0
  have "place_step rnd a w st = None"
  proof (cases "place_step rnd a w st")
    case (Some st')
    from place_step_shrinks[OF Some] 0 show ?thesis by simp
  qed simp
  then show ?case by (simp add: place_loop.simps)
next
  case (Suc n)
  show ?case
  proof (cases "place_step rnd a w st")
    case None
    then show ?thesis by (simp add: place_loop.simps)
  next
    case (Some st')
    from place_step_shrinks[OF Some] Suc.prems
    have "nat (window_end st' - window_start a) \<le> n" by linarith
    from Suc.IH[OF this] Some show ?thesis
      by (simp add: place_loop.simps[of rnd a w st])
  qed
qed

text \<open>
  Claim C8. The placement loop of a task halts. Every successful placement sets
  \<open>window_end\<close> to a strictly smaller value that is still at least \<open>window_start\<close>;
  an iteration that finds no free segment or places nothing leaves the loop; so the
  loop started at \<open>window_end\<close> returns within \<open>window_end - window_start + 1\<close>
  iterations (the run with that bound returns the loop's result), and the handling
  of a task is such a bounded run. \<^verbatim>\<open>plan\<close> runs it once for each of the finitely many
  pending tasks. (The definition of \<open>place_loop\<close> was accepted with the measure
  \<open>remaining\<close>, which every placement decreases as well.)
\<close>

theorem placement_loop_halts:
  "(place_step rnd a w st = Some st' \<longrightarrow>
      window_start a \<le> window_end st' \<and> window_end st' < window_end st)
   \<and> (place_step rnd a w st = None \<longrightarrow> place_loop rnd a w st = st)
   \<and> place_fuel (Suc (nat (window_end st - window_start a))) rnd a w st
        = Some (place_loop rnd a w st)
   \<and> (window_start a < min (day_end eng) (due_min w) \<longrightarrow>
        (\<exists>fin. place_fuel (Suc (nat (min (day_end eng) (due_min w) - window_start a))) rnd a w
                 \<lparr>remaining = minutes_needed w, window_end = min (day_end eng) (due_min w),
                  plan_blocks = blocks, lines = ls\<rparr> = Some fin
             \<and> plan_task rnd eng a (blocks, ls) w
                 = (plan_blocks fin,
                    if remaining fin > 0 then lines fin @ [shortfall_line w (remaining fin)]
                    else lines fin)))"
proof (intro conjI impI)
  assume "place_step rnd a w st = Some st'"
  then show "window_start a \<le> window_end st'" "window_end st' < window_end st"
    using place_step_shrinks by blast+
next
  assume "place_step rnd a w st = None"
  then show "place_loop rnd a w st = st"
    by (simp add: place_loop.simps[of rnd a w st])
next
  show "place_fuel (Suc (nat (window_end st - window_start a))) rnd a w st
        = Some (place_loop rnd a w st)"
    by (rule place_fuel_enough) simp
next
  assume open_window: "window_start a < min (day_end eng) (due_min w)"
  define st0 where "st0 = \<lparr>remaining = minutes_needed w, window_end = min (day_end eng) (due_min w),
                  plan_blocks = blocks, lines = ls\<rparr>"
  have "place_fuel (Suc (nat (min (day_end eng) (due_min w) - window_start a))) rnd a w st0
      = Some (place_loop rnd a w st0)"
    by (rule place_fuel_enough) (simp add: st0_def)
  moreover have "plan_task rnd eng a (blocks, ls) w
      = (plan_blocks (place_loop rnd a w st0),
         if remaining (place_loop rnd a w st0) > 0
         then lines (place_loop rnd a w st0) @ [shortfall_line w (remaining (place_loop rnd a w st0))]
         else lines (place_loop rnd a w st0))"
  proof -
    have nle: "\<not> min (day_end eng) (due_min w) \<le> window_start a"
      using open_window by linarith
    show ?thesis
      unfolding plan_task_def Let_def st0_def prod.case if_not_P[OF nle] by (rule refl)
  qed
  ultimately show "\<exists>fin. place_fuel (Suc (nat (min (day_end eng) (due_min w) - window_start a))) rnd a w
                 \<lparr>remaining = minutes_needed w, window_end = min (day_end eng) (due_min w),
                  plan_blocks = blocks, lines = ls\<rparr> = Some fin
             \<and> plan_task rnd eng a (blocks, ls) w
                 = (plan_blocks fin,
                    if remaining fin > 0 then lines fin @ [shortfall_line w (remaining fin)]
                    else lines fin)"
    unfolding st0_def by blast
qed

theorem placement_loop_halts_witness:
  "place_step (\<lambda>x. x)
        \<lparr>busy = [(570, 690, ''Lecture: Alg'')], window_start = 480, block_size = 60,
          max_break = 60, adaptive_breaks = True, tired = 3, min_gap_between_study = 10\<rparr>
        \<lparr>course = ''M'', title = ''hw'', date_iso = ''2025-03-03'', due_min = 900,
          minutes_needed = 90, prepared = False, repeat_weekly = False\<rparr>
        \<lparr>remaining = 90, window_end = 900, plan_blocks = [], lines = []\<rparr>
     = Some (commit (\<lambda>x. x)
        \<lparr>busy = [(570, 690, ''Lecture: Alg'')], window_start = 480, block_size = 60,
          max_break = 60, adaptive_breaks = True, tired = 3, min_gap_between_study = 10\<rparr>
        \<lparr>course = ''M'', title = ''hw'', date_iso = ''2025-03-03'', due_min = 900,
          minutes_needed = 90, prepared = False, repeat_weekly = False\<rparr>
        \<lparr>remaining = 90, window_end = 900, plan_blocks = [], lines = []\<rparr>
        (480, 570, 60))
   \<and> 480 \<le> window_end (commit (\<lambda>x. x)
        \<lparr>busy = [(570, 690, ''Lecture: Alg'')], window_start = 480, block_size = 60,
          max_break = 60, adaptive_breaks = True, tired = 3, min_gap_between_study = 10\<rparr>
        \<lparr>course = ''M'', title = ''hw'', date_iso = ''2025-03-03'', due_min = 900,
          minutes_needed = 90, prepared = False, repeat_weekly = False\<rparr>
        \<lparr>remaining = 90, window_end = 900, plan_blocks = [], lines = []\<rparr>
        (480, 570, 60))
   \<and> window_end (commit (\<lambda>x. x)
        \<lparr>busy = [(570, 690, ''Lecture: Alg'')], window_start = 480, block_size = 60,
          max_break = 60, adaptive_breaks = True, tired = 3, min_gap_between_study = 10\<rparr>
        \<lparr>course = ''M'', title = ''hw'', date_iso = ''2025-03-03'', due_min = 900,
          minutes_needed = 90, prepared = False, repeat_weekly = False\<rparr>
        \<lparr>remaining = 90, window_end = 900, plan_blocks = [], lines = []\<rparr>
        (480, 570, 60)) < 900
   \<and> place_fuel (Suc (nat (900 - 480))) (\<lambda>x. x)
        \<lparr>busy = [(570, 690, ''Lecture: Alg'')], window_start = 480, block_size = 60,
          max_break = 60, adaptive_breaks = True, tired = 3, min_gap_between_study = 10\<rparr>
        \<lparr>course = ''M'', title = ''hw'', date_iso = ''2025-03-03'', due_min = 900,
          minutes_needed = 90, prepared = False, repeat_weekly = False\<rparr>
        \<lparr>remaining = 90, window_end = 900, plan_blocks = [], lines = []\<rparr>
     = Some (place_loop (\<lambda>x. x)
        \<lparr>busy = [(570, 690, ''Lecture: Alg'')], window_start = 480, block_size = 60,
          max_break = 60, adaptive_breaks = True, tired = 3, min_gap_between_study = 10\<rparr>
        \<lparr>course = ''M'', title = ''hw'', date_iso = ''2025-03-03'', due_min = 900,
          minutes_needed = 90, prepared = False, repeat_weekly = False\<rparr>
        \<lparr>remaining = 90, window_end = 900, plan_blocks = [], lines = []\<rparr>)"
proof -
  define a where "a = \<lparr>busy = [(570, 690, ''Lecture: Alg'')], window_start = 480, block_size = 60,
          max_break = 60, adaptive_breaks = True, tired = 3, min_gap_between_study = 10\<rparr>"
  define w where "w = \<lparr>course = ''M'', title = ''hw'', date_iso = ''2025-03-03'', due_min = 900,
          minutes_needed = 90, prepared = False, repeat_weekly = False\<rparr>"
  define st where "st = \<lparr>remaining = 90, window_end = 900, plan_blocks = [], lines = []\<rparr>"
  have step: "place_step (\<lambda>x. x) a w st = Some (commit (\<lambda>x. x) a w st (480, 570, 60))"
    unfolding a_def w_def st_def by code_simp
  have v: "window_start a = 480" "window_end st = 900"
    by (simp_all add: a_def st_def)
  from placement_loop_halts[of "\<lambda>x. x" a w st "commit (\<lambda>x. x) a w st (480, 570, 60)"] step
  have "place_step (\<lambda>x. x) a w st = Some (commit (\<lambda>x. x) a w st (480, 570, 60))
     \<and> 480 \<le> window_end (commit (\<lambda>x. x) a w st (480, 570, 60))
     \<and> window_end (commit (\<lambda>x. x) a w st (480, 570, 60)) < 900
     \<and> place_fuel (Suc (nat (900 - 480))) (\<lambda>x. x) a w st = Some (place_loop (\<lambda>x. x) a w st)"
    unfolding v by blast
  then show ?thesis
    unfolding a_def w_def st_def .
qed

subsection \<open>Shortfalls\<close>

lemma study_minutes_simps [simp]:
  "study_minutes [] = 0"
  "study_minutes (xs @ ys) = study_minutes xs + study_minutes ys"
  "study_minutes [study_block s e w] = e - s"
  "study_minutes [break_block s e] = 0"
  by (simp_all add: study_minutes_def study_block_def break_block_def)

lemma task_blocks_simps [simp]:
  "task_blocks w []"
  "task_blocks w (xs @ ys) = (task_blocks w xs \<and> task_blocks w ys)"
  "task_blocks w [study_block s e w]"
  "task_blocks w [break_block s e]"
  by (simp_all add: task_blocks_def study_block_def break_block_def)

lemma commit_fields:
  "remaining (commit rnd a w st (fs, fe, alloc)) = remaining st - alloc"
  "window_end (commit rnd a w st (fs, fe, alloc)) = fe - alloc"
  "\<exists>bp. plan_blocks (commit rnd a w st (fs, fe, alloc))
          = plan_blocks st @ [study_block (fe - alloc) fe w] @ bp
        \<and> (bp = [] \<or> (\<exists>s. bp = [break_block s (fe - alloc)]
                         \<and> window_start a \<le> s \<and> s < fe - alloc))"
  "\<exists>lp. lines (commit rnd a w st (fs, fe, alloc))
          = lines st @ [study_line (fe - alloc) fe w] @ lp"
  by (auto simp: commit_def Let_def)












subsection \<open>Two inputs on which the invariants of the blocks fail\<close>

text \<open>
  Claim C1 (the code departs from it). The claim asks that the Study and Break
  blocks of one call never overlap. A Study block is placed inside a free segment,
  but the Break before it is only clipped to the start of the window, not to the
  segment. Day 8:00 to 22:00, no lecture, task A due 8:30 needing 30 minutes and
  task B due 9:00 needing 120: A gets Study [480, 510), B gets Study [510, 540) and
  then a Break of 19 minutes before it, [491, 510), inside A's Study block. The slack
  there is 0, so the break is the floor \<open>10 + 3 * 3\<close> whatever the scaled budget is.
\<close>

theorem break_overlaps_earlier_study:
  "map (\<lambda>b. (start_min b, end_min b, kind b))
     (fst (plan (\<lambda>x. x) \<lparr>day_start = 480, day_end = 1320, now_min = None\<rparr> []
        [\<lparr>course = ''A'', title = ''a'', date_iso = ''2025-03-03'', due_min = 510,
           minutes_needed = 30, prepared = False, repeat_weekly = False\<rparr>,
         \<lparr>course = ''B'', title = ''b'', date_iso = ''2025-03-03'', due_min = 540,
           minutes_needed = 120, prepared = False, repeat_weekly = False\<rparr>]
        60 60 True 3 30 10))
   = [(480, 510, ''study''), (510, 540, ''study''), (491, 510, ''break'')]
   \<and> \<not> non_overlapping (filter (\<lambda>b. kind b = ''study'' \<or> kind b = ''break'')
     (fst (plan (\<lambda>x. x) \<lparr>day_start = 480, day_end = 1320, now_min = None\<rparr> []
        [\<lparr>course = ''A'', title = ''a'', date_iso = ''2025-03-03'', due_min = 510,
           minutes_needed = 30, prepared = False, repeat_weekly = False\<rparr>,
         \<lparr>course = ''B'', title = ''b'', date_iso = ''2025-03-03'', due_min = 540,
           minutes_needed = 120, prepared = False, repeat_weekly = False\<rparr>]
        60 60 True 3 30 10)))"
  by code_simp

text \<open>
  Claim C2 (the code departs from it). The claim asks that every block lies within
  \<open>[day_start, day_end)\<close> for every horizon. The window of a task starts at
  \<^verbatim>\<open>now_min\<close> when one is given, also when it is before \<open>day_start\<close>. Day 8:00 to
  22:00 planned at 7:00, a lecture 9:00 to 10:00, one task due 12:00 needing 60
  minutes: the Study block is [450, 510), which starts 30 minutes before the day.
\<close>

theorem study_before_day_start:
  "map (\<lambda>b. (start_min b, end_min b, kind b))
     (fst (plan (\<lambda>x. x) \<lparr>day_start = 480, day_end = 1320, now_min = Some 420\<rparr>
        [\<lparr>l_course = ''Alg'', l_start_min = 540, l_end_min = 600\<rparr>]
        [\<lparr>course = ''M'', title = ''hw'', date_iso = ''2025-03-03'', due_min = 720,
           minutes_needed = 60, prepared = False, repeat_weekly = False\<rparr>]
        60 60 True 3 30 10))
   = [(450, 510, ''study''), (510, 630, ''lecture'')]
   \<and> \<not> list_all (within_day \<lparr>day_start = 480, day_end = 1320, now_min = Some 420\<rparr>)
     (fst (plan (\<lambda>x. x) \<lparr>day_start = 480, day_end = 1320, now_min = Some 420\<rparr>
        [\<lparr>l_course = ''Alg'', l_start_min = 540, l_end_min = 600\<rparr>]
        [\<lparr>course = ''M'', title = ''hw'', date_iso = ''2025-03-03'', due_min = 720,
           minutes_needed = 60, prepared = False, repeat_weekly = False\<rparr>]
        60 60 True 3 30 10))"
  by code_simp

subsection \<open>What the placement guarantees\<close>

text \<open>
  The part of the two invariants that the code keeps. When no \<^verbatim>\<open>now_min\<close> is given,
  or it is not before \<open>day_start\<close>, every returned block has \<open>start < end\<close> and lies
  within the day.
\<close>

lemma lecture_busy_in_day: "list_all (in_day eng) (lecture_busy eng buf lectures)"
  by (induction lectures) (auto simp: lecture_busy_def in_day_def Let_def)

lemma merge_step_in_day:
  assumes "out \<noteq> []" "list_all (in_day eng) out" "in_day eng x"
  shows "merge_step out x \<noteq> [] \<and> list_all (in_day eng) (merge_step out x)"
proof -
  obtain s e lab where x: "x = (s, e, lab)" by (cases x)
  obtain ls le ll where l: "last out = (ls, le, ll)" by (cases "last out")
  have lo: "in_day eng (last out)" using assms(1,2) by (simp add: list_all_iff)
  have bl: "list_all (in_day eng) (butlast out)"
    using assms(2) by (auto simp: list_all_iff dest: in_set_butlastD)
  show ?thesis
    using assms(2,3) lo bl unfolding merge_step_def x l
    by (auto simp: in_day_def)
qed

lemma foldl_merge_step_in_day:
  assumes "out \<noteq> []" "list_all (in_day eng) out" "list_all (in_day eng) xs"
  shows "list_all (in_day eng) (foldl merge_step out xs)"
  using assms
proof (induction xs arbitrary: out)
  case Nil
  then show ?case by simp
next
  case (Cons x xs)
  from merge_step_in_day[OF Cons.prems(1,2), of x] Cons.prems(3)
  have "merge_step out x \<noteq> []" "list_all (in_day eng) (merge_step out x)" by simp_all
  from Cons.IH[OF this] Cons.prems(3) show ?case by simp
qed

lemma merge_intervals_in_day:
  assumes "list_all (in_day eng) ivs"
  shows "list_all (in_day eng) (merge_intervals ivs)"
proof (cases "sort ivs")
  case Nil
  then show ?thesis by (simp add: merge_intervals_def)
next
  case (Cons x xs)
  have "list_all (in_day eng) (sort ivs)"
    using assms by (simp add: list_all_iff)
  then have "list_all (in_day eng) [x]" "list_all (in_day eng) xs"
    unfolding Cons by simp_all
  then have "list_all (in_day eng) (foldl merge_step [x] xs)"
    by (intro foldl_merge_step_in_day) simp_all
  then show ?thesis by (simp add: merge_intervals_def Cons)
qed

lemma lecture_out_within_day:
  assumes "list_all (within_day eng) (fst acc)" "list_all (in_day eng) ivs"
  shows "list_all (within_day eng) (fst (foldl lecture_out acc ivs))"
  using assms
proof (induction ivs arbitrary: acc)
  case Nil
  then show ?case by simp
next
  case (Cons iv ivs)
  obtain blocks ls where acc: "acc = (blocks, ls)" by (cases acc)
  obtain s e lab where iv: "iv = (s, e, lab)" by (cases iv)
  have "within_day eng \<lparr>start_min = s, end_min = e, label = lab, kind = ''lecture'',
                         pb_course = replace_first ''Lecture: '' [] lab, manual = False\<rparr>"
    using Cons.prems(2) by (simp add: iv within_day_def in_day_def)
  then have "list_all (within_day eng) (fst (lecture_out acc iv))"
    using Cons.prems(1) by (simp add: acc iv lecture_out_def)
  from Cons.IH[OF this] Cons.prems(2) show ?case by simp
qed

lemma place_step_new_blocks:
  assumes "place_step rnd a w st = Some st'"
  shows "\<exists>nb. plan_blocks st' = plan_blocks st @ nb
           \<and> list_all (\<lambda>b. window_start a \<le> start_min b \<and> start_min b < end_min b
                            \<and> end_min b \<le> window_end st) nb"
proof -
  from assms obtain fs fe alloc where
    mem: "(fs, fe) \<in> set (subtract_intervals (window_start a) (window_end st)
                      (busy a @ block_intervals (plan_blocks st)))"
    and al: "0 < alloc" "alloc = min (block_size a) (min (remaining st) (fe - fs))"
    and st': "st' = commit rnd a w st (fs, fe, alloc)"
    by (rule place_step_Some)
  have le: "alloc \<le> fe - fs" using al(2) by simp
  then have "fs < fe" using al(1) by simp
  from free_segment_bounds[OF mem this] have b: "window_start a \<le> fs" "fe \<le> window_end st"
    by simp_all
  from commit_fields(3)[of rnd a w st fs fe alloc] obtain bp where
    bp: "plan_blocks st' = plan_blocks st @ [study_block (fe - alloc) fe w] @ bp"
      "bp = [] \<or> (\<exists>s. bp = [break_block s (fe - alloc)] \<and> window_start a \<le> s \<and> s < fe - alloc)"
    unfolding st' by blast
  have "list_all (\<lambda>b. window_start a \<le> start_min b \<and> start_min b < end_min b
                            \<and> end_min b \<le> window_end st) ([study_block (fe - alloc) fe w] @ bp)"
    using bp(2) b le al(1) by (auto simp: study_block_def break_block_def)
  then show ?thesis using bp(1) by blast
qed

lemma place_loop_new_blocks:
  "\<exists>nb. plan_blocks (place_loop rnd a w st) = plan_blocks st @ nb
           \<and> list_all (\<lambda>b. window_start a \<le> start_min b \<and> start_min b < end_min b
                            \<and> end_min b \<le> window_end st) nb"
proof (induction rnd a w st rule: place_loop.induct)
  case (1 rnd a w st)
  show ?case
  proof (cases "place_step rnd a w st")
    case None
    then have "place_loop rnd a w st = st" by (simp add: place_loop.simps[of rnd a w st])
    then show ?thesis by simp
  next
    case (Some st')
    then have loop: "place_loop rnd a w st = place_loop rnd a w st'"
      by (simp add: place_loop.simps[of rnd a w st])
    from place_step_new_blocks[OF Some] obtain nb1 where
      s1: "plan_blocks st' = plan_blocks st @ nb1"
        "list_all (\<lambda>b. window_start a \<le> start_min b \<and> start_min b < end_min b
                            \<and> end_min b \<le> window_end st) nb1"
      by blast
    from "1.IH"[OF Some] obtain nb2 where
      s2: "plan_blocks (place_loop rnd a w st') = plan_blocks st' @ nb2"
        "list_all (\<lambda>b. window_start a \<le> start_min b \<and> start_min b < end_min b
                            \<and> end_min b \<le> window_end st') nb2"
      by blast
    have "window_end st' < window_end st" using place_step_shrinks[OF Some] by simp
    then have "list_all (\<lambda>b. window_start a \<le> start_min b \<and> start_min b < end_min b
                            \<and> end_min b \<le> window_end st) nb2"
      using s2(2) by (auto simp: list_all_iff)
    then have "plan_blocks (place_loop rnd a w st) = plan_blocks st @ (nb1 @ nb2)
        \<and> list_all (\<lambda>b. window_start a \<le> start_min b \<and> start_min b < end_min b
                            \<and> end_min b \<le> window_end st) (nb1 @ nb2)"
      using s1 s2(1) by (simp add: loop)
    then show ?thesis by blast
  qed
qed

lemma plan_task_within_day:
  assumes "list_all (within_day eng) (fst acc)" "day_start eng \<le> window_start a"
  shows "list_all (within_day eng) (fst (plan_task rnd eng a acc w))"
proof -
  obtain blocks ls where acc: "acc = (blocks, ls)" by (cases acc)
  define st0 where "st0 = \<lparr>remaining = minutes_needed w, window_end = min (day_end eng) (due_min w),
                      plan_blocks = blocks, lines = ls\<rparr>"
  from place_loop_new_blocks[of rnd a w st0] obtain nb where
    nb: "plan_blocks (place_loop rnd a w st0) = blocks @ nb"
      "list_all (\<lambda>b. window_start a \<le> start_min b \<and> start_min b < end_min b
                            \<and> end_min b \<le> min (day_end eng) (due_min w)) nb"
    by (auto simp: st0_def)
  have "list_all (within_day eng) nb"
    using nb(2) assms(2) by (auto simp: list_all_iff within_day_def)
  then have "list_all (within_day eng) (plan_blocks (place_loop rnd a w st0))"
    using assms(1) by (simp add: nb(1) acc)
  then show ?thesis
    using assms(1) by (simp add: plan_task_def acc Let_def st0_def)
qed

lemma foldl_plan_task_within_day:
  assumes "list_all (within_day eng) (fst acc)" "day_start eng \<le> window_start a"
  shows "list_all (within_day eng) (fst (foldl (plan_task rnd eng a) acc ws))"
  using assms(1)
proof (induction ws arbitrary: acc)
  case Nil
  then show ?case by simp
next
  case (Cons x ws)
  from plan_task_within_day[OF Cons.prems assms(2), of rnd x]
  show ?case unfolding foldl_Cons by (rule Cons.IH)
qed

lemma plan_within_day:
  assumes "case now_min eng of None \<Rightarrow> True | Some n \<Rightarrow> day_start eng \<le> n"
  shows "list_all (within_day eng) (fst (plan rnd eng lectures work blk mb adaptive t buf gap))"
proof -
  define bsy where "bsy = merge_intervals (lecture_busy eng buf lectures)"
  define a where "a = \<lparr>busy = bsy,
       window_start = (case now_min eng of Some n \<Rightarrow> n | None \<Rightarrow> day_start eng),
       block_size = blk, max_break = mb,
       adaptive_breaks = adaptive, tired = max 1 (min 10 t), min_gap_between_study = gap\<rparr>"
  define acc1 where "acc1 = foldl (plan_task rnd eng a) ([], []) (pending_of work)"
  have ws: "day_start eng \<le> window_start a"
    using assms by (simp add: a_def split: option.splits)
  have b: "list_all (in_day eng) (sort bsy)"
    using merge_intervals_in_day[OF lecture_busy_in_day, of eng buf lectures]
    by (simp add: bsy_def list_all_iff)
  have "list_all (within_day eng) (fst acc1)"
    unfolding acc1_def by (rule foldl_plan_task_within_day[OF _ ws]) simp
  then have "list_all (within_day eng) (fst (fst acc1, snd acc1 @ [fixed_header]))" by simp
  from lecture_out_within_day[OF this b]
  show ?thesis
    by (simp add: plan_def Let_def bsy_def[symmetric] a_def[symmetric] acc1_def[symmetric])
qed

text \<open>
  A Study block never overlaps a block placed before it (so no two Study blocks
  overlap) nor a busy interval of a lecture: only a Break can run into an earlier
  block.
\<close>

lemma studies_clear_Nil [simp]: "studies_clear []"
  by (simp add: studies_clear_def)

lemma studies_clear_snoc:
  "studies_clear (bs @ [b]) =
     (studies_clear bs \<and> (kind b = ''study'' \<longrightarrow> list_all (\<lambda>c. apart c b) bs))"
proof -
  have "studies_clear (bs @ [b]) =
      ((\<forall>j<length bs. kind ((bs @ [b]) ! j) = ''study'' \<longrightarrow> (\<forall>i<j. apart ((bs @ [b]) ! i) ((bs @ [b]) ! j)))
       \<and> (kind ((bs @ [b]) ! length bs) = ''study'' \<longrightarrow>
            (\<forall>i<length bs. apart ((bs @ [b]) ! i) ((bs @ [b]) ! length bs))))"
    unfolding studies_clear_def by (auto simp: less_Suc_eq)
  also have "\<dots> = (studies_clear bs \<and> (kind b = ''study'' \<longrightarrow> (\<forall>i<length bs. apart (bs ! i) b)))"
    unfolding studies_clear_def by (simp add: nth_append)
  also have "(\<forall>i<length bs. apart (bs ! i) b) = list_all (\<lambda>c. apart c b) bs"
    by (simp add: list_all_length)
  finally show ?thesis .
qed

lemma free_disjoint:
  assumes mem: "(fs, fe) \<in> set (subtract_intervals st en bsy)" and pos: "fs < fe"
    and iv: "(s, e, l) \<in> set bsy" and se: "s < e"
  shows "e \<le> fs \<or> fe \<le> s"
proof (rule ccontr)
  assume "\<not> (e \<le> fs \<or> fe \<le> s)"
  then have ov: "fs < e" "s < fe" by simp_all
  have le: "st \<le> en"
  proof (rule ccontr)
    assume "\<not> st \<le> en"
    then have "subtract_intervals st en bsy = [(st, en)]"
      by (intro subtract_intervals_inverted) simp
    then show False using mem pos \<open>\<not> st \<le> en\<close> by simp
  qed
  from free_segment_bounds[OF mem pos] have b: "st \<le> fs" "fe \<le> en" by simp_all
  define x where "x = max s fs"
  have x: "fs \<le> x" "x < fe" "s \<le> x" "x < e" using ov pos se by (simp_all add: x_def)
  have "x \<in> segs (subtract_intervals st en bsy)"
    unfolding segs_def using mem x(1,2) by (intro UN_I[of "(fs, fe)"]) simp_all
  moreover have "x \<in> segs (clip_blocks st en bsy)"
    unfolding segs_clip_blocks using iv x b by (intro UN_I[of "(s, e, l)"]) simp_all
  ultimately show False
    using subtract_intervals_props[OF le, of bsy] by blast
qed


lemma place_step_inv:
  assumes step: "place_step rnd a w st = Some st'"
    and bsy: "\<forall>(s, e, l)\<in>set (busy a). s < e"
    and inv: "placement_inv (busy a) (plan_blocks st)"
  shows "placement_inv (busy a) (plan_blocks st')"
proof -
  from step obtain fs fe alloc where
    mem: "(fs, fe) \<in> set (subtract_intervals (window_start a) (window_end st)
                      (busy a @ block_intervals (plan_blocks st)))"
    and al: "0 < alloc" "alloc = min (block_size a) (min (remaining st) (fe - fs))"
    and st': "st' = commit rnd a w st (fs, fe, alloc)"
    by (rule place_step_Some)
  have le: "alloc \<le> fe - fs" using al(2) by simp
  then have pos: "fs < fe" using al(1) by simp
  define b where "b = study_block (fe - alloc) fe w"
  have b: "start_min b = fe - alloc" "end_min b = fe" "kind b = ''study''"
    by (simp_all add: b_def study_block_def)
  from commit_fields(3)[of rnd a w st fs fe alloc] obtain bp where
    bp: "plan_blocks st' = (plan_blocks st @ [b]) @ bp"
      "bp = [] \<or> (\<exists>s. bp = [break_block s (fe - alloc)] \<and> s < fe - alloc)"
    unfolding st' b_def by auto
  have i1: "list_all (\<lambda>b. start_min b < end_min b) (plan_blocks st)"
    and i2: "studies_clear (plan_blocks st)" and i3: "clear_of_busy (busy a) (plan_blocks st)"
    using inv by (simp_all add: placement_inv_def)
  have old: "apart c b" if "c \<in> set (plan_blocks st)" for c
  proof -
    have "(start_min c, end_min c, label c) \<in> set (busy a @ block_intervals (plan_blocks st))"
      using that by (auto simp: block_intervals_def)
    moreover have "start_min c < end_min c" using i1 that by (simp add: list_all_iff)
    ultimately have "end_min c \<le> fs \<or> fe \<le> start_min c"
      by (rule free_disjoint[OF mem pos])
    then show ?thesis using le by (auto simp: apart_def b)
  qed
  have lect: "e \<le> start_min b \<or> end_min b \<le> s" if "(s, e, l) \<in> set (busy a)" for s e l
  proof -
    have "(s, e, l) \<in> set (busy a @ block_intervals (plan_blocks st))" using that by simp
    moreover have "s < e" using bsy that by auto
    ultimately have "e \<le> fs \<or> fe \<le> s" by (rule free_disjoint[OF mem pos])
    then show ?thesis using le by (auto simp: b)
  qed
  have c1: "list_all (\<lambda>b. start_min b < end_min b) (plan_blocks st @ [b])"
    using i1 al(1) by (simp add: b)
  have c2: "studies_clear (plan_blocks st @ [b])"
    unfolding studies_clear_snoc using i2 old by (simp add: list_all_iff)
  have "\<forall>(s, e, l)\<in>set (busy a). e \<le> start_min b \<or> end_min b \<le> s"
    using lect by blast
  then have c3: "clear_of_busy (busy a) (plan_blocks st @ [b])"
    using i3 by (simp add: clear_of_busy_def)
  have s1: "placement_inv (busy a) (plan_blocks st @ [b])"
    unfolding placement_inv_def using c1 c2 c3 by simp
  show ?thesis
  proof (cases "bp = []")
    case True
    then show ?thesis using s1 bp(1) by simp
  next
    case False
    then obtain s where s: "bp = [break_block s (fe - alloc)]" "s < fe - alloc"
      using bp(2) by blast
    have k: "kind (break_block s (fe - alloc)) \<noteq> ''study''"
      "start_min (break_block s (fe - alloc)) < end_min (break_block s (fe - alloc))"
      using s(2) by (simp_all add: break_block_def)
    have e1: "list_all (\<lambda>b. start_min b < end_min b)
        ((plan_blocks st @ [b]) @ [break_block s (fe - alloc)])"
      using c1 k(2) by simp
    have e2: "studies_clear ((plan_blocks st @ [b]) @ [break_block s (fe - alloc)])"
      by (subst studies_clear_snoc) (simp add: c2 k(1))
    have e3: "clear_of_busy (busy a) ((plan_blocks st @ [b]) @ [break_block s (fe - alloc)])"
      using c3 k(1) by (simp add: clear_of_busy_def)
    show ?thesis
      unfolding bp(1) s(1) placement_inv_def using e1 e2 e3 by simp
  qed
qed

lemma place_loop_inv:
  assumes "\<forall>(s, e, l)\<in>set (busy a). s < e" "placement_inv (busy a) (plan_blocks st)"
  shows "placement_inv (busy a) (plan_blocks (place_loop rnd a w st))"
  using assms
proof (induction rnd a w st rule: place_loop.induct)
  case (1 rnd a w st)
  show ?case
  proof (cases "place_step rnd a w st")
    case None
    then show ?thesis using "1.prems" by (simp add: place_loop.simps[of rnd a w st])
  next
    case (Some st')
    from "1.IH"[OF Some "1.prems"(1) place_step_inv[OF Some "1.prems"]] Some
    show ?thesis by (simp add: place_loop.simps[of rnd a w st])
  qed
qed

lemma plan_task_inv:
  assumes "\<forall>(s, e, l)\<in>set (busy a). s < e" "placement_inv (busy a) (fst acc)"
  shows "placement_inv (busy a) (fst (plan_task rnd eng a acc w))"
proof -
  obtain blocks ls where acc: "acc = (blocks, ls)" by (cases acc)
  have "placement_inv (busy a) (plan_blocks (place_loop rnd a w
          \<lparr>remaining = minutes_needed w, window_end = min (day_end eng) (due_min w),
           plan_blocks = blocks, lines = ls\<rparr>))"
    using assms by (intro place_loop_inv) (simp_all add: acc)
  then show ?thesis
    using assms(2) by (simp add: plan_task_def acc Let_def)
qed

lemma foldl_plan_task_inv:
  assumes "\<forall>(s, e, l)\<in>set (busy a). s < e" "placement_inv (busy a) (fst acc)"
  shows "placement_inv (busy a) (fst (foldl (plan_task rnd eng a) acc ws))"
  using assms(2)
proof (induction ws arbitrary: acc)
  case Nil
  then show ?case by simp
next
  case (Cons x ws)
  from plan_task_inv[OF assms(1) Cons.prems, of rnd eng x]
  show ?case unfolding foldl_Cons by (rule Cons.IH)
qed

lemma lecture_out_inv:
  assumes "studies_clear (fst acc)" "clear_of_busy bsy (fst acc)"
  shows "studies_clear (fst (foldl lecture_out acc ivs))
       \<and> clear_of_busy bsy (fst (foldl lecture_out acc ivs))"
  using assms
proof (induction ivs arbitrary: acc)
  case Nil
  then show ?case by simp
next
  case (Cons iv ivs)
  obtain blocks ls where acc: "acc = (blocks, ls)" by (cases acc)
  obtain s e lab where iv: "iv = (s, e, lab)" by (cases iv)
  have "studies_clear (fst (lecture_out acc iv))"
    using Cons.prems(1) by (simp add: acc iv lecture_out_def studies_clear_snoc)
  moreover have "clear_of_busy bsy (fst (lecture_out acc iv))"
    using Cons.prems(2) by (simp add: acc iv lecture_out_def clear_of_busy_def)
  ultimately show ?case
    unfolding foldl_Cons by (rule Cons.IH)
qed

lemma studies_never_overlap_earlier:
  "studies_clear (fst (plan rnd eng lectures work blk mb adaptive t buf gap))
   \<and> clear_of_busy (merge_intervals (lecture_busy eng buf lectures))
        (fst (plan rnd eng lectures work blk mb adaptive t buf gap))"
proof -
  define bsy where "bsy = merge_intervals (lecture_busy eng buf lectures)"
  define a where "a = \<lparr>busy = bsy,
       window_start = (case now_min eng of Some n \<Rightarrow> n | None \<Rightarrow> day_start eng),
       block_size = blk, max_break = mb,
       adaptive_breaks = adaptive, tired = max 1 (min 10 t), min_gap_between_study = gap\<rparr>"
  define acc1 where "acc1 = foldl (plan_task rnd eng a) ([], []) (pending_of work)"
  have "list_all (in_day eng) bsy"
    unfolding bsy_def by (rule merge_intervals_in_day[OF lecture_busy_in_day])
  then have pos: "\<forall>(s, e, l)\<in>set (busy a). s < e"
    by (auto simp: a_def list_all_iff in_day_def)
  have "placement_inv (busy a) (fst acc1)"
    unfolding acc1_def
    by (rule foldl_plan_task_inv[OF pos]) (simp add: placement_inv_def clear_of_busy_def)
  then have "studies_clear (fst (fst acc1, snd acc1 @ [fixed_header]))"
    "clear_of_busy bsy (fst (fst acc1, snd acc1 @ [fixed_header]))"
    by (simp_all add: placement_inv_def a_def)
  from lecture_out_inv[OF this, of "sort bsy"]
  show ?thesis
    by (simp add: plan_def Let_def bsy_def[symmetric] a_def[symmetric] acc1_def[symmetric])
qed

end
